theory Spec2Isabelle
  imports Main "HOL-Library.Word" "HOL-Library.Signed_Division"
begin

section \<open>The two Gauss-sum functions of \<open>ryan-test/gauss.c\<close>\<close>

text \<open>
  The source file holds two C functions on \<open>int\<close>:
  \<^verbatim>\<open>
  int gauss_ref(int n) {
    if (n == 1)
      return 1;
    return gauss_ref(n-1) + 1;
  }

  int gauss_closed(int n) {
    return n * (n + 1) /2;
  }
  \<close>
  A C \<open>int\<close> is modelled as a 32-bit word. Addition, subtraction and multiplication
  are the word operations, so a result outside the signed range wraps around modulo
  \<open>2 ^ 32\<close> (the two's-complement behaviour of the machine instructions); \<open>sint\<close> reads
  a word as the signed value the C program sees. The C standard leaves a signed result
  outside the range undefined; where a statement below is about results that have not
  wrapped, it says so with \<open>in_int_range\<close>, and the termination of \<open>gauss_ref\<close> is
  stated on an evaluation that stops at such a result (\<open>gauss_ref_chk\<close>).
\<close>

subsection \<open>Data model\<close>

type_synonym c_int = "32 word"

text \<open>
  C's \<open>/\<close> on \<open>int\<close> truncates the quotient towards zero. On \<open>int\<close> this is \<open>sdiv\<close>
  of \<open>HOL-Library.Signed_Division\<close>; HOL's \<open>div\<close> rounds towards minus infinity.
  The only divisor in the source is the literal \<open>2\<close>, so division by zero and the
  quotient of the least \<open>int\<close> by \<open>- 1\<close> do not arise.
\<close>

definition c_div :: "c_int \<Rightarrow> c_int \<Rightarrow> c_int" where
  "c_div a b = word_of_int (sint a sdiv sint b)"

text \<open>The values of \<open>int\<close> on which an arithmetic result has not wrapped.\<close>

definition in_int_range :: "int \<Rightarrow> bool" where
  "in_int_range k \<longleftrightarrow> - (2 ^ 31) \<le> k \<and> k < 2 ^ 31"

subsection \<open>\<open>gauss_ref\<close>\<close>

text \<open>
  The recursion of \<open>gauss_ref\<close> is on \<open>n - 1\<close> until \<open>n = 1\<close>. On 32-bit words the
  distance \<open>unat (n - 1)\<close> to the base case decreases with every call, so the function
  is total in this model.
\<close>

function gauss_ref :: "c_int \<Rightarrow> c_int" where
  "gauss_ref n = (if n = 1 then 1 else gauss_ref (n - 1) + 1)"
  by pat_completeness auto
termination
proof (relation "measure (\<lambda>n. unat (n - 1))")
  show "wf (measure (\<lambda>n::c_int. unat (n - 1)))"
    by simp
next
  fix n :: c_int
  assume "n \<noteq> 1"
  then have "n - 1 \<noteq> 0"
    by simp
  then have "unat (n - 1 - 1) < unat (n - 1)"
    using unat_minus_one [of "n - 1"] unat_gt_0 [of "n - 1"] by simp
  then show "(n - 1, n) \<in> measure (\<lambda>n. unat (n - 1))"
    by simp
qed

declare gauss_ref.simps [simp del]

text \<open>
  The same function with the depth of the recursion made explicit: \<open>gauss_ref_fuel k n\<close>
  runs \<open>gauss_ref n\<close> with at most \<open>k\<close> nested recursive calls below the outermost one
  and is \<open>None\<close> when the base case is not reached within that depth.
\<close>

fun gauss_ref_fuel :: "nat \<Rightarrow> c_int \<Rightarrow> c_int option" where
  "gauss_ref_fuel 0 n = (if n = 1 then Some 1 else None)"
| "gauss_ref_fuel (Suc k) n =
     (if n = 1 then Some 1 else map_option (\<lambda>r. r + 1) (gauss_ref_fuel k (n - 1)))"

text \<open>
  The recursion once more, now with the rule of C for signed arithmetic: a difference
  \<open>n - 1\<close> or a sum \<open>r + 1\<close> outside the \<open>int\<close> range is an overflow, for which C
  defines no value, and the evaluation stops there without a result. As in
  \<open>gauss_ref_fuel\<close>, \<open>k\<close> bounds the nested recursive calls below the outermost one.
  The argument \<open>n - 1\<close> is evaluated before the call is made, so an overflow of the
  argument is met before the depth bound.
\<close>

datatype outcome = Returned c_int | Signed_Overflow | Depth_Exceeded

fun gauss_ref_chk :: "nat \<Rightarrow> c_int \<Rightarrow> outcome" where
  "gauss_ref_chk 0 n =
     (if n = 1 then Returned 1
      else if in_int_range (sint n - 1) then Depth_Exceeded
      else Signed_Overflow)"
| "gauss_ref_chk (Suc k) n =
     (if n = 1 then Returned 1
      else if in_int_range (sint n - 1) then
        (case gauss_ref_chk k (n - 1) of
           Returned r \<Rightarrow>
             if in_int_range (sint r + 1) then Returned (r + 1) else Signed_Overflow
         | Signed_Overflow \<Rightarrow> Signed_Overflow
         | Depth_Exceeded \<Rightarrow> Depth_Exceeded)
      else Signed_Overflow)"

subsection \<open>\<open>gauss_closed\<close>\<close>

definition gauss_closed :: "c_int \<Rightarrow> c_int" where
  "gauss_closed n = c_div (n * (n + 1)) 2"

subsection \<open>A call of \<open>gauss_closed\<close> as a relation on an explicit store\<close>

text \<open>
  A call of \<open>gauss_closed\<close> is also given as a big-step relation: from the store \<open>s\<close>
  and the argument \<open>n\<close> to the store after the call and the returned value. The body
  is one \<open>return\<close> of an arithmetic expression over the argument.
\<close>

inductive gauss_closed_exec :: "'s \<Rightarrow> c_int \<Rightarrow> 's \<times> c_int \<Rightarrow> bool" where
  gauss_closed_ret: "gauss_closed_exec s n (s, c_div (n * (n + 1)) 2)"

code_pred gauss_closed_exec .

section \<open>Basic facts\<close>

lemma gauss_ref_id: "gauss_ref n = n"
proof (induction n rule: gauss_ref.induct)
  case (1 n)
  show ?case
  proof (cases "n = 1")
    case True
    then show ?thesis by (simp add: gauss_ref.simps)
  next
    case False
    with "1" have "gauss_ref (n - 1) = n - 1" by simp
    with False show ?thesis by (simp add: gauss_ref.simps [of n])
  qed
qed

lemma gauss_ref_fuel_eq:
  "gauss_ref_fuel k n = (if unat (n - 1) \<le> k then Some n else None)"
proof (induction k arbitrary: n)
  case 0
  then show ?case by (auto simp: unat_eq_0)
next
  case (Suc k)
  show ?case
  proof (cases "n = 1")
    case True
    then show ?thesis by simp
  next
    case False
    then have nz: "n - 1 \<noteq> 0" by simp
    have "unat (n - 1 - 1) = unat (n - 1) - 1"
      using nz by (rule unat_minus_one)
    moreover have "0 < unat (n - 1)"
      using nz by (simp add: unat_gt_0)
    ultimately have "unat (n - 1 - 1) \<le> k \<longleftrightarrow> unat (n - 1) \<le> Suc k"
      by arith
    with False Suc [of "n - 1"] show ?thesis
      by simp
  qed
qed

lemma gauss_closed_exec_iff:
  "gauss_closed_exec s n out \<longleftrightarrow> out = (s, gauss_closed n)"
  by (auto simp: gauss_closed_def intro: gauss_closed_ret elim: gauss_closed_exec.cases)

lemma even_sint: "even (sint (w::c_int)) \<longleftrightarrow> even w"
proof -
  have "even (word_of_int (sint w) :: c_int) \<longleftrightarrow> even (sint w)"
    by (rule even_of_int_iff)
  then show ?thesis by simp
qed

lemma sdiv2_even: "even (k::int) \<Longrightarrow> k sdiv 2 = k div 2"
  by (auto simp: signed_divide_int_def sgn_if zdiv_zminus1_eq_if elim: evenE)

lemma sint_c_div2: "sint (c_div w 2) = sint w sdiv 2"
proof -
  have "- (2 ^ 31) \<le> sint w" "sint w < 2 ^ 31"
    using sint_ge [of w] sint_lt [of w] by simp_all
  then have "- (2 ^ 31) \<le> sint w sdiv 2 \<and> sint w sdiv 2 < 2 ^ 31"
    by (auto simp: signed_divide_int_def sgn_if)
  then show ?thesis
    by (simp add: c_div_def sint_sbintrunc' signed_take_bit_int_eq_self_iff)
qed

lemma even_product: "even (n * (n + 1) :: c_int)"
  by simp

lemma sint_gauss_closed: "sint (gauss_closed n) = sint (n * (n + 1)) div 2"
proof -
  have "even (sint (n * (n + 1)))"
    by (simp only: even_sint even_product)
  then show ?thesis
    by (simp only: gauss_closed_def sint_c_div2 sdiv2_even)
qed

lemma twice_sint_gauss_closed: "2 * sint (gauss_closed n) = sint (n * (n + 1))"
proof -
  have "even (sint (n * (n + 1)))"
    by (simp only: even_sint even_product)
  then show ?thesis
    by (simp only: sint_gauss_closed) simp
qed

lemma twice_gauss_closed: "2 * gauss_closed n = n * (n + 1)"
proof -
  have "word_of_int (2 * sint (gauss_closed n)) = (word_of_int (sint (n * (n + 1))) :: c_int)"
    by (simp only: twice_sint_gauss_closed)
  then show ?thesis by simp
qed

lemma sint_word_of_int_range:
  "in_int_range k \<Longrightarrow> sint (word_of_int k :: c_int) = k"
  by (simp add: in_int_range_def sint_sbintrunc' signed_take_bit_int_eq_self_iff)

lemma gauss_closed_exact:
  assumes "in_int_range (k * (k + 1))"
  shows "sint (gauss_closed (word_of_int k)) = k * (k + 1) div 2"
proof -
  have "(word_of_int k :: c_int) * (word_of_int k + 1) = word_of_int (k * (k + 1))"
    by simp
  then show ?thesis
    using assms by (simp only: sint_gauss_closed sint_word_of_int_range)
qed

lemma odd_mult_zero:
  assumes "odd (a :: c_int)" and "a * b = 0"
  shows "b = 0"
proof -
  have "even (word_of_int (uint a) :: c_int) \<longleftrightarrow> even (uint a)"
    by (rule even_of_int_iff)
  with assms(1) have "odd (uint a)"
    by simp
  then have "coprime 2 (uint a)"
    by (simp add: coprime_left_2_iff_odd)
  then have cop: "coprime (2 ^ 32) (uint a)"
    by (simp only: coprime_power_left_iff) simp
  have "uint (a * b) = 0"
    using assms(2) by simp
  then have "(2 ^ 32 :: int) dvd uint a * uint b"
    by (simp add: uint_word_ariths mod_eq_0_iff_dvd)
  with cop have dv: "(2 ^ 32 :: int) dvd uint b"
    by (simp add: coprime_dvd_mult_right_iff)
  have "uint b = 0"
  proof (rule ccontr)
    assume "uint b \<noteq> 0"
    moreover have "0 \<le> uint b"
      by simp
    ultimately have "0 < uint b"
      by linarith
    with dv have "2 ^ 32 \<le> uint b"
      by (rule zdvd_imp_le)
    moreover have "uint b < 2 ^ 32"
      using uint_lt2p [of b] by simp
    ultimately show False
      by linarith
  qed
  then show ?thesis
    by (simp add: word_uint_eq_iff)
qed

lemma gauss_closed_fixed_point:
  assumes "gauss_closed n = n"
  shows "n = 0 \<or> n = 1"
proof -
  have "2 * n = n * (n + 1)"
    using twice_gauss_closed [of n] assms by simp
  then have eq: "n * (n - 1) = 0"
    by (simp add: algebra_simps)
  show ?thesis
  proof (cases "odd n")
    case True
    from True eq have "n - 1 = 0" by (rule odd_mult_zero)
    then show ?thesis by simp
  next
    case False
    then have "odd (n - 1)" by simp
    moreover from eq have "(n - 1) * n = 0" by (simp add: mult.commute)
    ultimately have "n = 0" by (rule odd_mult_zero)
    then show ?thesis by simp
  qed
qed

lemma uint_pred: "uint (n - 1 :: c_int) = (sint n - 1) mod 2 ^ 32"
proof -
  have "uint n = sint n mod 2 ^ 32"
    by (simp add: uint_sint take_bit_eq_mod)
  then show ?thesis
    by (simp add: uint_word_ariths mod_diff_left_eq)
qed

lemma sint_bounds: "- (2 ^ 31) \<le> sint (n::c_int)" "sint (n::c_int) < 2 ^ 31"
  using sint_ge [of n] sint_lt [of n] by simp_all

lemma unat_pred_pos:
  assumes "1 \<le>s (n::c_int)"
  shows "unat (n - 1) = nat (sint n) - 1"
proof -
  have "1 \<le> sint n"
    using assms by (simp add: word_sle_eq)
  moreover have "sint n < 2 ^ 31"
    by (rule sint_bounds)
  ultimately have "(sint n - 1) mod 2 ^ 32 = sint n - 1"
    by simp
  then have "uint (n - 1) = sint n - 1"
    by (simp only: uint_pred)
  then have "unat (n - 1) = nat (sint n - 1)"
    by (simp only: unat_eq_nat_uint)
  then show ?thesis
    by (simp add: nat_diff_distrib)
qed

lemma triangular_gt:
  assumes "1 < (m::int)"
  shows "m < m * (m + 1) div 2"
proof -
  have "(m + 1) * 2 \<le> (m + 1) * m"
    using assms by (intro mult_left_mono) simp_all
  then have "2 * (m + 1) \<le> m * (m + 1)"
    by (simp only: mult.commute)
  then have "(2 * (m + 1)) div 2 \<le> m * (m + 1) div 2"
    by (rule zdiv_mono1) simp
  then show ?thesis
    by simp
qed

lemma gauss_closed_exact_sint:
  assumes "in_int_range (sint n * (sint n + 1))"
  shows "sint (gauss_closed n) = sint n * (sint n + 1) div 2"
  using gauss_closed_exact [OF assms] by simp

lemma product_range_nonneg:
  assumes "0 \<le> (k::int)" and "k \<le> 46340"
  shows "in_int_range (k * (k + 1))"
proof -
  have "k * (k + 1) \<le> 46340 * (46340 + 1)"
    using assms by (intro mult_mono) simp_all
  moreover have "0 \<le> k * (k + 1)"
    using assms by simp
  ultimately show ?thesis
    by (simp add: in_int_range_def)
qed

lemma product_range_neg:
  assumes "- 46341 \<le> (k::int)" and "k \<le> - 1"
  shows "in_int_range (k * (k + 1))"
proof -
  have "in_int_range ((- k - 1) * ((- k - 1) + 1))"
    using assms by (intro product_range_nonneg) simp_all
  moreover have "(- k - 1) * ((- k - 1) + 1) = k * (k + 1)"
    by (simp add: algebra_simps)
  ultimately show ?thesis
    by simp
qed

lemma triangular_strict_mono:
  assumes "0 \<le> (a::int)" and "a < b"
  shows "a * (a + 1) div 2 < b * (b + 1) div 2"
proof -
  have "(a + 1) * (a + 2) \<le> b * (b + 1)"
    using assms by (intro mult_mono) simp_all
  moreover have "(a + 1) * (a + 2) = a * (a + 1) + 2 * (a + 1)"
    by (simp add: algebra_simps)
  ultimately have "a * (a + 1) + 2 \<le> b * (b + 1)"
    using assms by simp
  then have "(a * (a + 1) + 2) div 2 \<le> b * (b + 1) div 2"
    by (rule zdiv_mono1) simp
  then show ?thesis
    by simp
qed

lemma sint_eq_1_iff: "sint (n::c_int) = 1 \<longleftrightarrow> n = 1"
proof
  assume "sint n = 1"
  then have "word_of_int (sint n) = (word_of_int 1 :: c_int)"
    by (simp only:)
  then show "n = 1"
    by simp
next
  assume "n = 1"
  then show "sint n = 1"
    by simp
qed

lemma sint_pred:
  assumes "in_int_range (sint (n::c_int) - 1)"
  shows "sint (n - 1) = sint n - 1"
  using assms
  by (simp add: in_int_range_def sint_word_ariths signed_take_bit_int_eq_self_iff)

lemma sint_succ_pred:
  assumes "in_int_range (sint (n::c_int) - 1)"
  shows "in_int_range (sint (n - 1) + 1)"
  using assms sint_bounds [of n] by (simp add: sint_pred in_int_range_def)

lemma gauss_ref_chk_pos:
  "1 \<le>s n \<Longrightarrow>
     gauss_ref_chk k n = (if nat (sint n) - 1 \<le> k then Returned n else Depth_Exceeded)"
proof (induction k arbitrary: n)
  case 0
  show ?case
  proof (cases "n = 1")
    case True
    then show ?thesis by simp
  next
    case False
    then have "sint n \<noteq> 1"
      by (simp only: sint_eq_1_iff not_False_eq_True)
    with 0 have "1 < sint n"
      by (simp add: word_sle_eq)
    moreover have "sint n < 2 ^ 31"
      by (rule sint_bounds)
    ultimately show ?thesis
      using False by (simp add: in_int_range_def)
  qed
next
  case (Suc k)
  show ?case
  proof (cases "n = 1")
    case True
    then show ?thesis by simp
  next
    case False
    then have "sint n \<noteq> 1"
      by (simp only: sint_eq_1_iff not_False_eq_True)
    with Suc.prems have gt: "1 < sint n"
      by (simp add: word_sle_eq)
    moreover have "sint n < 2 ^ 31"
      by (rule sint_bounds)
    ultimately have rng: "in_int_range (sint n - 1)"
      by (simp add: in_int_range_def)
    then have sp: "sint (n - 1) = sint n - 1"
      by (rule sint_pred)
    with gt have "1 \<le>s n - 1"
      by (simp add: word_sle_eq)
    then have ih: "gauss_ref_chk k (n - 1) =
        (if nat (sint (n - 1)) - 1 \<le> k then Returned (n - 1) else Depth_Exceeded)"
      by (rule Suc.IH)
    have cond: "nat (sint (n - 1)) - 1 \<le> k \<longleftrightarrow> nat (sint n) - 1 \<le> Suc k"
      using gt by (simp add: sp) arith
    from rng have "in_int_range (sint (n - 1) + 1)"
      by (rule sint_succ_pred)
    with False rng ih cond show ?thesis
      by simp
  qed
qed


lemma gauss_ref_chk_fuel:
  assumes "1 \<le>s n"
  shows "gauss_ref_chk k n = (case gauss_ref_fuel k n of Some r \<Rightarrow> Returned r | None \<Rightarrow> Depth_Exceeded)"
  using assms by (simp add: gauss_ref_chk_pos gauss_ref_fuel_eq unat_pred_pos)

section \<open>The claims\<close>

text \<open>
  C1. For every \<open>n \<ge> 1\<close>, \<open>gauss_ref n\<close> returns \<open>n\<close> itself: the recursion reaches
  the base case within \<open>n - 1\<close> nested calls, the base case is \<open>gauss_ref 1 = 1\<close>, the
  step for \<open>n > 1\<close> is \<open>gauss_ref n = gauss_ref (n - 1) + 1\<close>, and for \<open>n > 1\<close> the
  result is not the triangular number \<open>n (n + 1) / 2\<close>.
\<close>

theorem gauss_ref_returns_n:
  assumes "1 \<le>s n"
  shows "gauss_ref n = n
    \<and> gauss_ref_fuel (nat (sint n) - 1) n = Some n
    \<and> gauss_ref 1 = 1
    \<and> (1 <s n \<longrightarrow> gauss_ref n = gauss_ref (n - 1) + 1
          \<and> sint (gauss_ref n) \<noteq> sint n * (sint n + 1) div 2)"
proof -
  have a: "gauss_ref n = n"
    by (rule gauss_ref_id)
  have b: "gauss_ref_fuel (nat (sint n) - 1) n = Some n"
    using assms by (simp add: gauss_ref_fuel_eq unat_pred_pos)
  have c: "gauss_ref 1 = 1"
    by (simp add: gauss_ref.simps)
  have d: "gauss_ref n = gauss_ref (n - 1) + 1" if "1 <s n"
  proof -
    from that have "n \<noteq> 1" by auto
    then show ?thesis by (simp add: gauss_ref.simps [of n])
  qed
  have e: "sint (gauss_ref n) \<noteq> sint n * (sint n + 1) div 2" if "1 <s n"
  proof -
    from that have "1 < sint n" by (simp add: word_sless_alt)
    then have "sint n < sint n * (sint n + 1) div 2" by (rule triangular_gt)
    then show ?thesis by (simp add: gauss_ref_id)
  qed
  from a b c d e show ?thesis by blast
qed

theorem gauss_ref_returns_n_witness:
  "1 \<le>s (5::c_int) \<and> gauss_ref 5 = 5 \<and> gauss_ref_fuel 4 5 = Some 5
    \<and> gauss_ref 5 = gauss_ref 4 + 1 \<and> sint (gauss_ref 5) \<noteq> 15"
  using gauss_ref_returns_n [of 5] by (simp add: word_sle_eq word_sless_alt gauss_ref_id)

text \<open>
  C2. For every \<open>n\<close> with \<open>1 < n\<close> in the signed 32-bit range, \<open>gauss_ref n\<close> and
  \<open>gauss_closed n\<close> differ. This holds on the whole range, also where the product
  \<open>n * (n + 1)\<close> has wrapped: the only arguments on which \<open>gauss_closed\<close> returns
  its argument are \<open>0\<close> and \<open>1\<close>.
\<close>

theorem gauss_ref_neq_gauss_closed:
  assumes "1 <s n"
  shows "gauss_ref n \<noteq> gauss_closed n"
proof
  assume "gauss_ref n = gauss_closed n"
  then have "gauss_closed n = n"
    by (simp add: gauss_ref_id)
  then have "n = 0 \<or> n = 1"
    by (rule gauss_closed_fixed_point)
  with assms show False
    by (auto simp: word_sless_alt)
qed

theorem gauss_ref_neq_gauss_closed_witness:
  "1 <s (2::c_int) \<and> gauss_ref 2 \<noteq> gauss_closed 2"
  using gauss_ref_neq_gauss_closed [of 2] by (simp add: word_sless_alt)

text \<open>
  C3. For every \<open>n\<close> with \<open>0 \<le> n \<le> 1000\<close> the product \<open>n * (n + 1)\<close> stays in the
  \<open>int\<close> range and \<open>gauss_closed n\<close> is the triangular number \<open>n (n + 1) / 2\<close>; the
  literal cases are \<open>gauss_closed 0 = 0\<close>, \<open>gauss_closed 1 = 1\<close>, \<open>gauss_closed 2 = 3\<close>,
  \<open>gauss_closed 5 = 15\<close> and \<open>gauss_closed 10 = 55\<close>.
\<close>

theorem gauss_closed_triangular:
  "(0 \<le>s n \<and> n \<le>s 1000 \<longrightarrow>
      in_int_range (sint n * (sint n + 1))
      \<and> sint (gauss_closed n) = sint n * (sint n + 1) div 2)
   \<and> gauss_closed 0 = 0 \<and> gauss_closed 1 = 1 \<and> gauss_closed 2 = 3
   \<and> gauss_closed 5 = 15 \<and> gauss_closed 10 = 55"
proof -
  have "in_int_range (sint n * (sint n + 1))
      \<and> sint (gauss_closed n) = sint n * (sint n + 1) div 2"
    if "0 \<le>s n" and "n \<le>s 1000"
  proof -
    from that have "0 \<le> sint n" and "sint n \<le> 46340"
      by (simp_all add: word_sle_eq)
    then have "in_int_range (sint n * (sint n + 1))"
      by (rule product_range_nonneg)
    then show ?thesis
      by (simp only: gauss_closed_exact_sint)
  qed
  moreover have "gauss_closed 0 = 0" "gauss_closed 1 = 1" "gauss_closed 2 = 3"
    "gauss_closed 5 = 15" "gauss_closed 10 = 55"
    by (simp_all add: gauss_closed_def c_div_def signed_divide_int_def)
  ultimately show ?thesis
    by blast
qed

theorem gauss_closed_triangular_witness:
  "0 \<le>s (1000::c_int) \<and> (1000::c_int) \<le>s 1000 \<and> sint (gauss_closed 1000) = 500500"
  using gauss_closed_triangular [of 1000] by (simp add: word_sle_eq)



text \<open>
  C5. At the overflow boundary \<open>n = 65536\<close> the product \<open>n * (n + 1)\<close> is computed in
  32 bits and wraps to \<open>65536\<close>, so \<open>gauss_closed 65536\<close> is \<open>32768\<close>. The value
  \<open>2147516416\<close> of the unbounded formula is above every value an \<open>int\<close> result can
  take.
\<close>

theorem gauss_closed_65536:
  "gauss_closed 65536 = 32768
   \<and> (65536 :: c_int) * (65536 + 1) = 65536
   \<and> sint (gauss_closed 65536) = 32768
   \<and> sint (gauss_closed m) < 2147516416"
proof -
  have "sint (gauss_closed m) < 2 ^ 31"
    by (rule sint_bounds)
  then have "sint (gauss_closed m) < 2147516416"
    by simp
  moreover have "gauss_closed 65536 = 32768"
    by (simp add: gauss_closed_def c_div_def signed_divide_int_def)
  ultimately show ?thesis
    by simp
qed

text \<open>
  In particular the result at \<open>65536\<close> is not \<open>2147516416\<close>, whether the returned word
  is read as signed or as unsigned.
\<close>

theorem gauss_closed_65536_not_widened:
  "sint (gauss_closed 65536) \<noteq> 2147516416 \<and> uint (gauss_closed 65536) \<noteq> 2147516416"
  by (simp add: gauss_closed_def c_div_def signed_divide_int_def)

text \<open>
  C6. For every negative \<open>n\<close> with \<open>- 46341 \<le> n \<le> - 1\<close> the product \<open>n * (n + 1)\<close>
  stays in the \<open>int\<close> range and \<open>gauss_closed n\<close> is that product divided by \<open>2\<close> with
  the quotient truncated towards zero (\<open>sdiv\<close>). The function returns a value on every
  argument: \<open>gauss_closed 0 = 0\<close>, and a call from any store on any argument has a
  result.
\<close>

theorem gauss_closed_negative:
  "(- 46341 \<le>s n \<and> n \<le>s - 1 \<longrightarrow>
      in_int_range (sint n * (sint n + 1))
      \<and> sint (gauss_closed n) = (sint n * (sint n + 1)) sdiv 2)
   \<and> gauss_closed 0 = 0
   \<and> (\<exists>r. gauss_closed_exec s m (s, r))"
proof -
  have "in_int_range (sint n * (sint n + 1))
      \<and> sint (gauss_closed n) = (sint n * (sint n + 1)) sdiv 2"
    if "- 46341 \<le>s n" and "n \<le>s - 1"
  proof -
    from that have "- 46341 \<le> sint n" and "sint n \<le> - 1"
      by (simp_all add: word_sle_eq)
    then have r: "in_int_range (sint n * (sint n + 1))"
      by (rule product_range_neg)
    have "even (sint n * (sint n + 1))"
      by simp
    then have "(sint n * (sint n + 1)) sdiv 2 = sint n * (sint n + 1) div 2"
      by (rule sdiv2_even)
    with r show ?thesis
      by (simp only: gauss_closed_exact_sint)
  qed
  moreover have "gauss_closed 0 = 0"
    by (simp add: gauss_closed_def c_div_def)
  moreover have "\<exists>r. gauss_closed_exec s m (s, r)"
    by (auto simp: gauss_closed_exec_iff)
  ultimately show ?thesis
    by blast
qed

theorem gauss_closed_negative_witness:
  "- 46341 \<le>s (- 46341 :: c_int) \<and> (- 46341 :: c_int) \<le>s - 1
   \<and> sint (gauss_closed (- 46341)) = 1073720970
   \<and> sint (gauss_closed (- 4)) = 6"
  using gauss_closed_negative [where n = "- 46341" and s = "()" and m = 0]
    gauss_closed_negative [where n = "- 4" and s = "()" and m = 0]
  by (simp add: word_sle_eq signed_divide_int_def)

text \<open>
  C8. Symmetry of the closed form under 32-bit wrap-around: \<open>gauss_closed\<close> at the
  wrapped value of \<open>- (n + 1)\<close> equals \<open>gauss_closed n\<close>, for every 32-bit \<open>n\<close>.
\<close>

theorem gauss_closed_reflect:
  "gauss_closed (- (n + 1)) = gauss_closed n"
proof -
  have "- (n + 1) * (- (n + 1) + 1) = n * (n + 1)"
    by (simp add: algebra_simps)
  then show ?thesis
    by (simp only: gauss_closed_def)
qed

text \<open>
  C9. The division in \<open>gauss_closed\<close> is exact. For every 32-bit \<open>n\<close> the (possibly
  wrapped) product \<open>n * (n + 1)\<close> is even, the signed remainder of the division by
  \<open>2\<close> is \<open>0\<close>, and twice the result is the wrapped product, both as words and as
  signed values.
\<close>

theorem gauss_closed_division_exact:
  "even (n * (n + 1))
   \<and> sint (n * (n + 1)) smod 2 = 0
   \<and> 2 * gauss_closed n = n * (n + 1)
   \<and> 2 * sint (gauss_closed n) = sint (n * (n + 1))"
proof -
  have "even (sint (n * (n + 1)))"
    by (simp only: even_sint even_product)
  then have "sint (n * (n + 1)) smod 2 = 0"
    by (auto simp: signed_modulo_int_def)
  then show ?thesis
    by (simp only: even_product twice_gauss_closed twice_sint_gauss_closed)
qed

text \<open>
  C10. \<open>gauss_closed\<close> is strictly increasing on \<open>0 \<le> a < b \<le> 46340\<close>, in the signed
  order.
\<close>

theorem gauss_closed_strict_mono:
  assumes "0 \<le>s a" and "a <s b" and "b \<le>s 46340"
  shows "gauss_closed a <s gauss_closed b"
proof -
  from assms have a: "0 \<le> sint a" and ab: "sint a < sint b" and b: "sint b \<le> 46340"
    by (simp_all add: word_sle_eq word_sless_alt)
  from a ab b have "in_int_range (sint a * (sint a + 1))"
    by (intro product_range_nonneg) simp_all
  then have ea: "sint (gauss_closed a) = sint a * (sint a + 1) div 2"
    by (rule gauss_closed_exact_sint)
  from a ab b have "in_int_range (sint b * (sint b + 1))"
    by (intro product_range_nonneg) simp_all
  then have eb: "sint (gauss_closed b) = sint b * (sint b + 1) div 2"
    by (rule gauss_closed_exact_sint)
  from a ab have "sint a * (sint a + 1) div 2 < sint b * (sint b + 1) div 2"
    by (rule triangular_strict_mono)
  then show ?thesis
    by (simp only: word_sless_alt ea eb)
qed

theorem gauss_closed_strict_mono_witness:
  "0 \<le>s (46339::c_int) \<and> (46339::c_int) <s 46340 \<and> (46340::c_int) \<le>s 46340
   \<and> gauss_closed 46339 <s gauss_closed 46340"
  using gauss_closed_strict_mono [of 46339 46340] by (simp add: word_sle_eq word_sless_alt)

end
